theory Spec2Isabelle
  imports Complex_Main "HOL-Library.Word" "HOL-Library.AList"
begin

section \<open>Packet codec (class SWPPacket)\<close>

text \<open>
  Both source files, \<^verbatim>\<open>src/40269583/swp.py\<close> and \<^verbatim>\<open>src/TestCode/swp.py\<close>, carry the
  same \<^verbatim>\<open>SWPType\<close> and \<^verbatim>\<open>SWPPacket\<close> classes. A byte string is a list of 8-bit words, a
  Python integer is an \<open>int\<close>, and every exception the code can raise is a value of
  \<open>error\<close>.
\<close>

type_synonym byte = "8 word"
type_synonym bytes = "byte list"

datatype error = StructError | ValueError | AttributeError

datatype SWPType = DATA | ACK

text \<open>\<^verbatim>\<open>DATA = ord('D')\<close>, \<^verbatim>\<open>ACK = ord('A')\<close>: the \<^verbatim>\<open>.value\<close> of a member.\<close>

fun SWPType_value :: "SWPType \<Rightarrow> int" where
  "SWPType_value DATA = 68"
| "SWPType_value ACK = 65"

text \<open>The enum's constructor call \<^verbatim>\<open>SWPType(v)\<close>: a \<^verbatim>\<open>ValueError\<close> for any other value.\<close>

definition SWPType_of :: "int \<Rightarrow> error + SWPType" where
  "SWPType_of v = (if v = 68 then Inr DATA else if v = 65 then Inr ACK else Inl ValueError)"

record SWPPacket =
  ptype :: SWPType
  seq_num :: int
  data :: bytes

definition HEADER_SIZE :: nat where
  "HEADER_SIZE = 5"

definition MAX_DATA_SIZE :: nat where
  "MAX_DATA_SIZE = 1400"

text \<open>
  \<^verbatim>\<open>struct.pack('!BI', t, n)\<close>: one unsigned byte, then an unsigned 32-bit integer in
  network (big-endian) order; \<^verbatim>\<open>struct.error\<close> when an argument is outside the range of
  its field.
\<close>

definition struct_pack :: "int \<Rightarrow> int \<Rightarrow> error + bytes" where
  "struct_pack t n =
     (if 0 \<le> t \<and> t \<le> 255 \<and> 0 \<le> n \<and> n \<le> 4294967295
      then Inr [word_of_int t, word_of_int (n div 16777216), word_of_int (n div 65536),
                word_of_int (n div 256), word_of_int n]
      else Inl StructError)"

text \<open>
  \<^verbatim>\<open>struct.unpack('!BI', buf)\<close>: \<^verbatim>\<open>struct.error\<close> unless the buffer holds exactly five
  bytes.
\<close>

fun struct_unpack :: "bytes \<Rightarrow> error + (int \<times> int)" where
  "struct_unpack [t, a, b, c, d] =
     Inr (uint t, uint a * 16777216 + uint b * 65536 + uint c * 256 + uint d)"
| "struct_unpack _ = Inl StructError"

definition to_bytes :: "SWPPacket \<Rightarrow> error + bytes" where
  "to_bytes p =
     (case struct_pack (SWPType_value (ptype p)) (seq_num p) of
        Inl e \<Rightarrow> Inl e
      | Inr header \<Rightarrow> Inr (header @ data p))"

definition from_bytes :: "bytes \<Rightarrow> error + SWPPacket" where
  "from_bytes raw =
     (case struct_unpack (take HEADER_SIZE raw) of
        Inl e \<Rightarrow> Inl e
      | Inr (t, n) \<Rightarrow>
          (case SWPType_of t of
             Inl e \<Rightarrow> Inl e
           | Inr ty \<Rightarrow> Inr \<lparr>ptype = ty, seq_num = n, data = drop HEADER_SIZE raw\<rparr>))"

section \<open>Sender: acknowledgment processing\<close>

text \<open>
  The send window is the list \<^verbatim>\<open>self._send_window\<close> of pairs \<^verbatim>\<open>(packet, time.time())\<close>.
  The time stamp is stored and never computed with.
\<close>

type_synonym timestamp = real
type_synonym window = "(SWPPacket \<times> timestamp) list"

text \<open>
  \<^verbatim>\<open>src/40269583/swp.py\<close>, the ACK branch of \<^verbatim>\<open>SWPSender._recv\<close>:
  \<^verbatim>\<open>self._send_window = [(p, t) for p, t in self._send_window if p.seq_num > packet.seq_num]\<close>
\<close>

definition sender_recv_ack :: "int \<Rightarrow> window \<Rightarrow> window" where
  "sender_recv_ack k w = filter (\<lambda>(p, t). seq_num p > k) w"

text \<open>
  \<^verbatim>\<open>src/TestCode/swp.py\<close>, \<^verbatim>\<open>SWPSender._handle_ack\<close>: the same comprehension, then a loop
  over the new window that, at the first entry whose \<^verbatim>\<open>seq_num\<close> equals the acknowledged
  one, calls \<^verbatim>\<open>send_time.cancel()\<close> and breaks. \<^verbatim>\<open>send_time\<close> is the float stored by
  \<^verbatim>\<open>_send\<close>, which has no \<^verbatim>\<open>cancel\<close>: reaching the call raises \<^verbatim>\<open>AttributeError\<close>.
\<close>

definition sender_handle_ack :: "int \<Rightarrow> window \<Rightarrow> error + window" where
  "sender_handle_ack k w =
     (let w' = filter (\<lambda>(packet, send_time). seq_num packet > k) w in
      case find (\<lambda>(packet, send_time). seq_num packet = k) w' of
        None \<Rightarrow> Inr w'
      | Some (packet, send_time) \<Rightarrow> Inl AttributeError)"

section \<open>Receiver (class SWPReceiver)\<close>

text \<open>
  The state of a receiver: the FIFO \<^verbatim>\<open>self._ready_data\<close> (\<^verbatim>\<open>put\<close> appends, \<^verbatim>\<open>get\<close> takes the
  head), the dictionary \<^verbatim>\<open>self._recv_buffer\<close> as an association list in insertion order,
  the counter \<^verbatim>\<open>self._next_expected_seq_num\<close>, and the byte strings handed to
  \<^verbatim>\<open>self._llp_endpoint.send\<close>, oldest first.
\<close>

record SWPReceiver =
  ready_data :: "bytes list"
  recv_buffer :: "(int \<times> bytes) list"
  next_expected_seq_num :: int
  llp_sent :: "bytes list"

definition receiver_init :: SWPReceiver where
  "receiver_init =
     \<lparr>ready_data = [], recv_buffer = [], next_expected_seq_num = 0, llp_sent = []\<rparr>"

text \<open>
  A method that can raise returns the exception (or \<open>Inr ()\<close>) together with the state it
  leaves behind: an exception does not undo the assignments made before it.

  \<^verbatim>\<open>_send_ack\<close>: build the ACK packet for \<^verbatim>\<open>self._next_expected_seq_num - 1\<close>, encode it,
  send it.
\<close>

definition receiver_send_ack :: "SWPReceiver \<Rightarrow> (error + unit) \<times> SWPReceiver" where
  "receiver_send_ack r =
     (case to_bytes \<lparr>ptype = ACK, seq_num = next_expected_seq_num r - 1, data = []\<rparr> of
        Inl e \<Rightarrow> (Inl e, r)
      | Inr raw \<Rightarrow> (Inr (), r\<lparr>llp_sent := llp_sent r @ [raw]\<rparr>))"

text \<open>
  The loop
  \<^verbatim>\<open>while self._next_expected_seq_num in self._recv_buffer:\<close>
  \<^verbatim>\<open>    data = self._recv_buffer.pop(self._next_expected_seq_num)\<close>
  \<^verbatim>\<open>    self._ready_data.put(data)\<close>
  \<^verbatim>\<open>    self._next_expected_seq_num += 1\<close>
  Every iteration removes a key of the buffer, so the loop ends.
\<close>

function drain :: "SWPReceiver \<Rightarrow> SWPReceiver" where
  "drain r =
     (case map_of (recv_buffer r) (next_expected_seq_num r) of
        None \<Rightarrow> r
      | Some d \<Rightarrow>
          drain (r\<lparr>recv_buffer := AList.delete (next_expected_seq_num r) (recv_buffer r),
                   ready_data := ready_data r @ [d],
                   next_expected_seq_num := next_expected_seq_num r + 1\<rparr>))"
  by pat_completeness auto
termination
proof (relation "measure (\<lambda>r. length (recv_buffer r))")
  show "wf (measure (\<lambda>r. length (recv_buffer r)))" by simp
next
  fix r :: SWPReceiver and d
  assume "map_of (recv_buffer r) (next_expected_seq_num r) = Some d"
  then have "(next_expected_seq_num r, d) \<in> set (recv_buffer r)"
    by (rule map_of_SomeD)
  then have "length (AList.delete (next_expected_seq_num r) (recv_buffer r))
               < length (recv_buffer r)"
    unfolding AList.delete_eq
    by (intro length_filter_less [where x = "(next_expected_seq_num r, d)"]) auto
  then show "(r\<lparr>recv_buffer := AList.delete (next_expected_seq_num r) (recv_buffer r),
                ready_data := ready_data r @ [d],
                next_expected_seq_num := next_expected_seq_num r + 1\<rparr>, r)
             \<in> measure (\<lambda>r. length (recv_buffer r))"
    by simp
qed

declare drain.simps [simp del]

text \<open>
  The body run for a DATA packet (\<^verbatim>\<open>_recv\<close>, lines 150-161 of \<^verbatim>\<open>src/40269583/swp.py\<close>;
  \<^verbatim>\<open>_handle_data\<close> of \<^verbatim>\<open>src/TestCode/swp.py\<close>, the same statements): an ACK when the
  segment was released before, with no return after it; the store into the buffer; the
  drain loop; the final ACK.
\<close>

definition receiver_handle_data ::
    "SWPPacket \<Rightarrow> SWPReceiver \<Rightarrow> (error + unit) \<times> SWPReceiver" where
  "receiver_handle_data packet r =
     (case (if seq_num packet < next_expected_seq_num r then receiver_send_ack r
            else (Inr (), r)) of
        (Inl e, r1) \<Rightarrow> (Inl e, r1)
      | (Inr u, r1) \<Rightarrow>
          receiver_send_ack
            (drain (r1\<lparr>recv_buffer :=
                         AList.update (seq_num packet) (data packet) (recv_buffer r1)\<rparr>)))"

text \<open>
  The receive thread \<^verbatim>\<open>_recv\<close>, run on the byte strings the transport yields, in order.
  An exception ends the thread: the strings after it are never looked at. \<open>Inr ()\<close> is
  the thread waiting for the next one. An ACK packet is ignored. (A \<^verbatim>\<open>None\<close> from the
  transport is not an element of the list.)
\<close>

fun receiver_recv_loop :: "bytes list \<Rightarrow> SWPReceiver \<Rightarrow> (error + unit) \<times> SWPReceiver" where
  "receiver_recv_loop [] r = (Inr (), r)"
| "receiver_recv_loop (raw # rest) r =
     (case from_bytes raw of
        Inl e \<Rightarrow> (Inl e, r)
      | Inr packet \<Rightarrow>
          (case ptype packet of
             DATA \<Rightarrow>
               (case receiver_handle_data packet r of
                  (Inl e, r') \<Rightarrow> (Inl e, r')
                | (Inr u, r') \<Rightarrow> receiver_recv_loop rest r')
           | ACK \<Rightarrow> receiver_recv_loop rest r))"

section \<open>Sender (class SWPSender)\<close>

definition SEND_WINDOW_SIZE :: nat where
  "SEND_WINDOW_SIZE = 5"

text \<open>
  \<^verbatim>\<open>range(0, n, step)\<close> for a positive step: \<open>0, step, 2 * step, ...\<close> below \<open>n\<close>.
\<close>

definition range_step :: "nat \<Rightarrow> nat \<Rightarrow> nat list" where
  "range_step n step = map (\<lambda>j. j * step) [0 ..< (n + step - 1) div step]"

text \<open>
  The slices \<^verbatim>\<open>send\<close> passes to \<^verbatim>\<open>_send\<close>, in order:
  \<^verbatim>\<open>for i in range(0, len(data), SWPPacket.MAX_DATA_SIZE):\<close>
  \<^verbatim>\<open>    self._send(data[i:i+SWPPacket.MAX_DATA_SIZE])\<close>
\<close>

definition send_slices :: "bytes \<Rightarrow> bytes list" where
  "send_slices d =
     map (\<lambda>i. take MAX_DATA_SIZE (drop i d)) (range_step (length d) MAX_DATA_SIZE)"

text \<open>
  The fields of a sender, with the byte strings handed to \<^verbatim>\<open>self._llp_endpoint.send\<close>
  (oldest first) and the sequence numbers of the \<^verbatim>\<open>threading.Timer\<close>s started and not yet
  fired.
\<close>

record SWPSender =
  send_window :: window
  next_seq_num :: int
  llp_out :: "bytes list"
  timers :: "int list"

text \<open>
  \<^verbatim>\<open>_send\<close> after its wait loop (lines 79-87 of \<^verbatim>\<open>src/40269583/swp.py\<close>): build the packet,
  send its encoding, append it to the window with the time stamp, start its timer,
  increment the counter.
\<close>

definition sender_send_body :: "bytes \<Rightarrow> timestamp \<Rightarrow> SWPSender \<Rightarrow> error + SWPSender" where
  "sender_send_body d now s =
     (let packet = \<lparr>ptype = DATA, seq_num = next_seq_num s, data = d\<rparr> in
      case to_bytes packet of
        Inl e \<Rightarrow> Inl e
      | Inr raw \<Rightarrow>
          Inr (s\<lparr>llp_out := llp_out s @ [raw],
                 send_window := send_window s @ [(packet, now)],
                 timers := timers s @ [next_seq_num s],
                 next_seq_num := next_seq_num s + 1\<rparr>))"

text \<open>
  \<^verbatim>\<open>_retransmit(seq_num)\<close>: the first window entry with that sequence number, if any, is
  sent again and a new timer started.
\<close>

definition sender_retransmit :: "int \<Rightarrow> SWPSender \<Rightarrow> error + SWPSender" where
  "sender_retransmit n s =
     (case find (\<lambda>(packet, t). seq_num packet = n) (send_window s) of
        None \<Rightarrow> Inr s
      | Some (packet_to_resend, t) \<Rightarrow>
          (case to_bytes packet_to_resend of
             Inl e \<Rightarrow> Inl e
           | Inr raw \<Rightarrow> Inr (s\<lparr>llp_out := llp_out s @ [raw], timers := timers s @ [n]\<rparr>)))"

subsection \<open>The sender's threads\<close>

text \<open>
  A sender is shared by the application thread (in \<^verbatim>\<open>send\<close>), the receive thread and the
  timer threads. Every access to the window is inside \<^verbatim>\<open>with self._lock:\<close>. The receive
  thread and a timer thread take the lock, run a body with no blocking call and release
  it: one step each, possible only while the lock is free. \<^verbatim>\<open>_send\<close> is different: it takes
  the lock and then runs
  \<^verbatim>\<open>while len(self._send_window) >= self._SEND_WINDOW_SIZE:\<close>
  \<^verbatim>\<open>    time.sleep(0.1)\<close>
  with the lock held, so its steps are spelled out. \<open>app_pc\<close> is where the application
  thread stands: outside \<^verbatim>\<open>send\<close>; in the \<^verbatim>\<open>for\<close> loop of \<^verbatim>\<open>send\<close> with the slices still to
  pass to \<^verbatim>\<open>_send\<close>; or inside \<^verbatim>\<open>_send\<close> for one slice, holding the lock, at the test of
  the \<^verbatim>\<open>while\<close> loop.
\<close>

datatype app_pc = Idle | InSend "bytes list" | InWait bytes "bytes list"

record sender_sys =
  obj :: SWPSender
  locked :: bool
  app :: app_pc

datatype event =
    CallSend bytes
  | Acquire
  | Sleep
  | Transmit timestamp
  | Return
  | TimerFire int
  | AckArrive int

definition sender_init :: sender_sys where
  "sender_init =
     \<lparr>obj = \<lparr>send_window = [], next_seq_num = 0, llp_out = [], timers = []\<rparr>,
      locked = False, app = Idle\<rparr>"

text \<open>
  One step of one thread; \<open>None\<close> when the step cannot be taken in that state.
  \<^item> \<open>CallSend d\<close>: the application calls \<^verbatim>\<open>send(d)\<close>.
  \<^item> \<open>Acquire\<close>: \<^verbatim>\<open>_send\<close> enters \<^verbatim>\<open>with self._lock\<close> for the next slice.
  \<^item> \<open>Sleep\<close>: the window is full, one \<^verbatim>\<open>time.sleep(0.1)\<close>, back to the test.
  \<^item> \<open>Transmit now\<close>: the window is not full; the rest of \<^verbatim>\<open>_send\<close> runs and the lock is
    released. An exception leaves \<^verbatim>\<open>send\<close>.
  \<^item> \<open>Return\<close>: no slice is left, \<^verbatim>\<open>send\<close> returns.
  \<^item> \<open>TimerFire n\<close>: a started timer for \<open>n\<close> runs \<^verbatim>\<open>_retransmit(n)\<close>.
  \<^item> \<open>AckArrive k\<close>: the receive thread handles a decoded ACK packet with value \<open>k\<close>
    (the two source files compute the same window, see
    \<open>sender_handle_ack_eq\<close>). Reading and decoding a packet touch no field.
\<close>

fun fire :: "event \<Rightarrow> sender_sys \<Rightarrow> sender_sys option" where
  "fire (CallSend d) s =
     (case app s of Idle \<Rightarrow> Some (s\<lparr>app := InSend (send_slices d)\<rparr>) | _ \<Rightarrow> None)"
| "fire Return s =
     (case app s of InSend [] \<Rightarrow> Some (s\<lparr>app := Idle\<rparr>) | _ \<Rightarrow> None)"
| "fire Acquire s =
     (case app s of
        InSend (c # cs) \<Rightarrow>
          if locked s then None else Some (s\<lparr>locked := True, app := InWait c cs\<rparr>)
      | _ \<Rightarrow> None)"
| "fire Sleep s =
     (case app s of
        InWait c cs \<Rightarrow>
          if length (send_window (obj s)) \<ge> SEND_WINDOW_SIZE then Some s else None
      | _ \<Rightarrow> None)"
| "fire (Transmit now) s =
     (case app s of
        InWait c cs \<Rightarrow>
          if length (send_window (obj s)) \<ge> SEND_WINDOW_SIZE then None
          else (case sender_send_body c now (obj s) of
                  Inl e \<Rightarrow> Some (s\<lparr>locked := False, app := Idle\<rparr>)
                | Inr o' \<Rightarrow> Some (s\<lparr>obj := o', locked := False, app := InSend cs\<rparr>))
      | _ \<Rightarrow> None)"
| "fire (TimerFire n) s =
     (if locked s \<or> n \<notin> set (timers (obj s)) then None
      else let o1 = (obj s)\<lparr>timers := remove1 n (timers (obj s))\<rparr> in
           case sender_retransmit n o1 of
             Inl e \<Rightarrow> Some (s\<lparr>obj := o1\<rparr>)
           | Inr o2 \<Rightarrow> Some (s\<lparr>obj := o2\<rparr>))"
| "fire (AckArrive k) s =
     (if locked s then None
      else Some (s\<lparr>obj := (obj s)\<lparr>send_window := sender_recv_ack k (send_window (obj s))\<rparr>\<rparr>))"

fun run :: "event list \<Rightarrow> sender_sys \<Rightarrow> sender_sys option" where
  "run [] s = Some s"
| "run (e # es) s = (case fire e s of None \<Rightarrow> None | Some s' \<Rightarrow> run es s')"

subsection \<open>A send of six segments\<close>

text \<open>
  7001 zero bytes, the steps of \<^verbatim>\<open>send\<close> on them when no ACK is handled before the sixth
  call of \<^verbatim>\<open>_send\<close> takes the lock, and the state those steps end in.
\<close>

definition big_data :: bytes where
  "big_data = replicate 7001 0"

definition six_sends :: "event list" where
  "six_sends =
     [CallSend big_data, Acquire, Transmit 0, Acquire, Transmit 0, Acquire, Transmit 0,
      Acquire, Transmit 0, Acquire, Transmit 0, Acquire]"

definition segment :: "int \<Rightarrow> SWPPacket" where
  "segment i = \<lparr>ptype = DATA, seq_num = i, data = replicate 1400 0\<rparr>"

definition stuck :: sender_sys where
  "stuck =
     \<lparr>obj = \<lparr>send_window = [(segment 0, 0), (segment 1, 0), (segment 2, 0), (segment 3, 0),
                             (segment 4, 0)],
             next_seq_num = 5,
             llp_out = [[0x44, 0, 0, 0, 0] @ replicate 1400 0,
                        [0x44, 0, 0, 0, 1] @ replicate 1400 0,
                        [0x44, 0, 0, 0, 2] @ replicate 1400 0,
                        [0x44, 0, 0, 0, 3] @ replicate 1400 0,
                        [0x44, 0, 0, 0, 4] @ replicate 1400 0],
             timers = [0, 1, 2, 3, 4]\<rparr>,
      locked = True, app = InWait [0] []\<rparr>"

subsection \<open>Three one-segment sends and an acknowledgment\<close>

text \<open>
  Three calls of \<^verbatim>\<open>send\<close> with one byte each, every one run to its end with no ACK handled
  in between; the state they end in; and that state after the receive thread has then
  handled an ACK with value 0.
\<close>

definition three_sends :: "event list" where
  "three_sends =
     [CallSend [0], Acquire, Transmit 0, Return,
      CallSend [1], Acquire, Transmit 0, Return,
      CallSend [2], Acquire, Transmit 0, Return]"

definition three_sent :: sender_sys where
  "three_sent =
     \<lparr>obj = \<lparr>send_window = [(\<lparr>ptype = DATA, seq_num = 0, data = [0]\<rparr>, 0),
                             (\<lparr>ptype = DATA, seq_num = 1, data = [1]\<rparr>, 0),
                             (\<lparr>ptype = DATA, seq_num = 2, data = [2]\<rparr>, 0)],
             next_seq_num = 3,
             llp_out = [[0x44, 0, 0, 0, 0, 0], [0x44, 0, 0, 0, 1, 1], [0x44, 0, 0, 0, 2, 2]],
             timers = [0, 1, 2]\<rparr>,
      locked = False, app = Idle\<rparr>"

definition zero_acked :: sender_sys where
  "zero_acked =
     \<lparr>obj = \<lparr>send_window = [(\<lparr>ptype = DATA, seq_num = 1, data = [1]\<rparr>, 0),
                             (\<lparr>ptype = DATA, seq_num = 2, data = [2]\<rparr>, 0)],
             next_seq_num = 3,
             llp_out = [[0x44, 0, 0, 0, 0, 0], [0x44, 0, 0, 0, 1, 1], [0x44, 0, 0, 0, 2, 2]],
             timers = [0, 1, 2]\<rparr>,
      locked = False, app = Idle\<rparr>"

section \<open>Codec: when decoding fails\<close>

lemma list5: "length (buf :: 'a list) = 5 \<Longrightarrow> \<exists>t a b c d. buf = [t, a, b, c, d]"
  by (auto simp: length_Suc_conv eval_nat_numeral)

lemma struct_unpack_ok_iff:
  "(\<exists>v. struct_unpack buf = Inr v) \<longleftrightarrow> length buf = 5"
proof
  assume "\<exists>v. struct_unpack buf = Inr v"
  then show "length buf = 5"
    by (induction buf rule: struct_unpack.induct) auto
next
  assume "length buf = 5"
  then obtain t a b c d where "buf = [t, a, b, c, d]"
    using list5 by blast
  then show "\<exists>v. struct_unpack buf = Inr v" by simp
qed

lemma struct_unpack_short: "length buf \<noteq> 5 \<Longrightarrow> struct_unpack buf = Inl StructError"
  by (induction buf rule: struct_unpack.induct) auto

lemma struct_unpack_tag:
  assumes "5 \<le> length raw"
  shows "\<exists>n. struct_unpack (take 5 raw) = Inr (uint (hd raw), n)"
proof -
  from assms have "length (take 5 raw) = 5" by simp
  then obtain t a b c d where eq: "take 5 raw = [t, a, b, c, d]"
    using list5 by blast
  from assms have "raw \<noteq> []" by auto
  then have "hd (take 5 raw) = hd raw" by (cases raw) auto
  with eq have "t = hd raw" by simp
  with eq show ?thesis by simp
qed

lemma uint_byte_eq_iff: "uint (b :: byte) = uint (c :: byte) \<longleftrightarrow> b = c"
  by (simp add: word_uint_eq_iff)

lemma SWPType_of_tag:
  "(\<exists>ty. SWPType_of (uint (b :: byte)) = Inr ty) \<longleftrightarrow> b = 0x44 \<or> b = 0x41"
proof -
  have d: "uint (b :: byte) = 68 \<longleftrightarrow> b = 0x44"
    using uint_byte_eq_iff [of b "0x44"] by simp
  have a: "uint (b :: byte) = 65 \<longleftrightarrow> b = 0x41"
    using uint_byte_eq_iff [of b "0x41"] by simp
  show ?thesis
    by (auto simp: SWPType_of_def d a)
qed

text \<open>
  C9. Decoding raises an error exactly when fewer than five bytes are supplied or the
  first byte is neither 0x44 (DATA) nor 0x41 (ACK). On every other input it succeeds, and
  the payload of the decoded packet is everything after the fifth byte, whatever its
  length.
\<close>

theorem from_bytes_fails_iff:
  "((\<exists>e. from_bytes raw = Inl e) \<longleftrightarrow> (length raw < 5 \<or> (hd raw \<noteq> 0x44 \<and> hd raw \<noteq> 0x41)))
   \<and> (5 \<le> length raw \<and> (hd raw = 0x44 \<or> hd raw = 0x41) \<longrightarrow>
        (\<exists>p. from_bytes raw = Inr p \<and> data p = drop 5 raw
             \<and> length (data p) = length raw - 5))"
proof (cases "length raw < 5")
  case True
  then have "length (take 5 raw) \<noteq> 5" by simp
  then have "struct_unpack (take 5 raw) = Inl StructError"
    by (rule struct_unpack_short)
  then have "from_bytes raw = Inl StructError"
    by (simp add: from_bytes_def HEADER_SIZE_def)
  with True show ?thesis by simp
next
  case False
  then have len: "5 \<le> length raw" by simp
  then obtain n where un: "struct_unpack (take 5 raw) = Inr (uint (hd raw), n)"
    using struct_unpack_tag by blast
  show ?thesis
  proof (cases "hd raw = 0x44 \<or> hd raw = 0x41")
    case True
    then obtain ty where "SWPType_of (uint (hd raw)) = Inr ty"
      using SWPType_of_tag [of "hd raw"] by blast
    with un have "from_bytes raw = Inr \<lparr>ptype = ty, seq_num = n, data = drop 5 raw\<rparr>"
      by (simp add: from_bytes_def HEADER_SIZE_def)
    with True len show ?thesis by auto
  next
    case no: False
    then have "\<not> (\<exists>ty. SWPType_of (uint (hd raw)) = Inr ty)"
      using SWPType_of_tag [of "hd raw"] by blast
    then obtain e where "SWPType_of (uint (hd raw)) = Inl e"
      by (cases "SWPType_of (uint (hd raw))") auto
    with un have "from_bytes raw = Inl e"
      by (simp add: from_bytes_def HEADER_SIZE_def)
    with no len show ?thesis by auto
  qed
qed


text \<open>
  The theorem at a DATA packet whose payload is 1401 bytes long, one more than the
  sender's cap: the decoder accepts it.
\<close>

theorem from_bytes_fails_iff_witness:
  "5 \<le> length (0x44 # replicate 1405 (0 :: byte))
   \<and> (\<exists>p. from_bytes (0x44 # replicate 1405 0) = Inr p \<and> length (data p) = 1401)"
  using from_bytes_fails_iff [of "0x44 # replicate 1405 0"] by auto

section \<open>Sender: cumulative acknowledgment\<close>

lemma find_filter_gt_None:
  "find (\<lambda>(packet, send_time). seq_num packet = k)
     (filter (\<lambda>(packet, send_time). seq_num packet > k) w) = None"
  by (auto simp: find_None_iff)

lemma sender_handle_ack_eq: "sender_handle_ack k w = Inr (sender_recv_ack k w)"
  by (simp add: sender_handle_ack_def sender_recv_ack_def Let_def find_filter_gt_None)

lemma sender_recv_ack_set:
  "set (sender_recv_ack k w) = {e \<in> set w. k < seq_num (fst e)}"
  by (auto simp: sender_recv_ack_def)

lemma sender_recv_ack_id_iff:
  "sender_recv_ack k w = w \<longleftrightarrow> (\<forall>e \<in> set w. k < seq_num (fst e))"
  by (auto simp: sender_recv_ack_def filter_id_conv)

lemma sender_recv_ack_Nil_iff:
  "sender_recv_ack k w = [] \<longleftrightarrow> (\<forall>e \<in> set w. seq_num (fst e) \<le> k)"
  by (auto simp: sender_recv_ack_def filter_empty_conv)

lemma sender_send_body_fields:
  "sender_send_body d now s = Inr s' \<Longrightarrow>
     send_window s' = send_window s @ [(\<lparr>ptype = DATA, seq_num = next_seq_num s, data = d\<rparr>, now)]
     \<and> next_seq_num s' = next_seq_num s + 1"
  by (auto simp: sender_send_body_def Let_def split: sum.splits)

lemma sender_retransmit_fields:
  "sender_retransmit n s = Inr s' \<Longrightarrow>
     send_window s' = send_window s \<and> next_seq_num s' = next_seq_num s"
  by (auto simp: sender_retransmit_def split: option.splits sum.splits prod.splits)

text \<open>
  One step changes the window and the counter in one of three ways. From the initial
  state on, the sequence numbers in the window are below the counter, not negative, and
  with each of them the window holds every larger one below the counter.
\<close>

lemma fire_window_cases:
  assumes "fire e s = Some s'"
  shows "(send_window (obj s') = send_window (obj s) \<and> next_seq_num (obj s') = next_seq_num (obj s))
     \<or> (\<exists>k. send_window (obj s') = sender_recv_ack k (send_window (obj s))
             \<and> next_seq_num (obj s') = next_seq_num (obj s))
     \<or> (\<exists>c now. send_window (obj s') =
                    send_window (obj s) @ [(\<lparr>ptype = DATA, seq_num = next_seq_num (obj s), data = c\<rparr>, now)]
                \<and> next_seq_num (obj s') = next_seq_num (obj s) + 1)"
proof (cases e)
  case (CallSend d)
  then show ?thesis using assms by (auto split: app_pc.splits)
next
  case Acquire
  then show ?thesis using assms by (auto split: app_pc.splits list.splits if_splits)
next
  case Sleep
  then show ?thesis using assms by (auto split: app_pc.splits if_splits)
next
  case (Transmit now)
  then show ?thesis using assms
    by (auto dest!: sender_send_body_fields split: app_pc.splits if_splits sum.splits)
next
  case Return
  then show ?thesis using assms by (auto split: app_pc.splits list.splits)
next
  case (TimerFire n)
  then show ?thesis using assms
    by (auto simp: Let_def dest!: sender_retransmit_fields split: if_splits sum.splits)
next
  case (AckArrive k)
  then show ?thesis using assms by (auto split: if_splits)
qed

lemma fire_window_seqs:
  assumes f: "fire e s = Some s'"
    and "0 \<le> next_seq_num (obj s)"
    and "\<forall>x \<in> set (send_window (obj s)). 0 \<le> seq_num (fst x) \<and> seq_num (fst x) < next_seq_num (obj s)"
    and "\<forall>x \<in> set (send_window (obj s)). \<forall>j. seq_num (fst x) \<le> j \<and> j < next_seq_num (obj s)
           \<longrightarrow> j \<in> seq_num ` fst ` set (send_window (obj s))"
  shows "next_seq_num (obj s) \<le> next_seq_num (obj s')
     \<and> (\<forall>x \<in> set (send_window (obj s')). 0 \<le> seq_num (fst x) \<and> seq_num (fst x) < next_seq_num (obj s'))
     \<and> (\<forall>x \<in> set (send_window (obj s')). \<forall>j. seq_num (fst x) \<le> j \<and> j < next_seq_num (obj s')
           \<longrightarrow> j \<in> seq_num ` fst ` set (send_window (obj s')))"
proof -
  consider
    (same) "send_window (obj s') = send_window (obj s)" "next_seq_num (obj s') = next_seq_num (obj s)"
  | (ack) k where "send_window (obj s') = sender_recv_ack k (send_window (obj s))"
      "next_seq_num (obj s') = next_seq_num (obj s)"
  | (new) c now where
      "send_window (obj s') =
         send_window (obj s) @ [(\<lparr>ptype = DATA, seq_num = next_seq_num (obj s), data = c\<rparr>, now)]"
      "next_seq_num (obj s') = next_seq_num (obj s) + 1"
    using fire_window_cases [OF f] by blast
  then show ?thesis
  proof cases
    case same
    then show ?thesis using assms(2,3,4) by simp
  next
    case ack
    note w = ack(1) and n = ack(2)
    have c: "\<forall>x \<in> set (send_window (obj s')). \<forall>j. seq_num (fst x) \<le> j \<and> j < next_seq_num (obj s')
           \<longrightarrow> j \<in> seq_num ` fst ` set (send_window (obj s'))"
    proof (intro ballI allI impI)
      fix x j
      assume x: "x \<in> set (send_window (obj s'))"
        and j: "seq_num (fst x) \<le> j \<and> j < next_seq_num (obj s')"
      from x have xin: "x \<in> set (send_window (obj s))" and kx: "k < seq_num (fst x)"
        unfolding w sender_recv_ack_set by auto
      from assms(4) xin j n have "j \<in> seq_num ` fst ` set (send_window (obj s))" by simp
      then obtain y where y: "y \<in> set (send_window (obj s))" "seq_num (fst y) = j" by auto
      then have "y \<in> set (send_window (obj s'))"
        unfolding w sender_recv_ack_set using kx j by auto
      then show "j \<in> seq_num ` fst ` set (send_window (obj s'))"
        using y(2) by force
    qed
    have b: "\<forall>x \<in> set (send_window (obj s')). 0 \<le> seq_num (fst x) \<and> seq_num (fst x) < next_seq_num (obj s')"
      using assms(3) n unfolding w sender_recv_ack_set by simp
    show ?thesis using n b c by simp
  next
    case new
    note w = new(1) and n = new(2)
    have b: "\<forall>x \<in> set (send_window (obj s')). 0 \<le> seq_num (fst x) \<and> seq_num (fst x) < next_seq_num (obj s')"
      using assms(2,3) w n by auto
    have c: "\<forall>x \<in> set (send_window (obj s')). \<forall>j. seq_num (fst x) \<le> j \<and> j < next_seq_num (obj s')
           \<longrightarrow> j \<in> seq_num ` fst ` set (send_window (obj s'))"
    proof (intro ballI allI impI)
      fix x j
      assume x: "x \<in> set (send_window (obj s'))"
        and j: "seq_num (fst x) \<le> j \<and> j < next_seq_num (obj s')"
      show "j \<in> seq_num ` fst ` set (send_window (obj s'))"
      proof (cases "j = next_seq_num (obj s)")
        case True
        then show ?thesis unfolding w by (simp add: image_iff)
      next
        case False
        then have jlt: "j < next_seq_num (obj s)" using j n by simp
        have "x \<in> set (send_window (obj s))"
          using x j jlt unfolding w by auto
        then have "j \<in> seq_num ` fst ` set (send_window (obj s))"
          using assms(4) j jlt by blast
        then show ?thesis unfolding w by auto
      qed
    qed
    show ?thesis using n b c by simp
  qed
qed

lemma run_window_seqs:
  assumes "run tr s = Some s'"
    and "0 \<le> next_seq_num (obj s)"
    and "\<forall>x \<in> set (send_window (obj s)). 0 \<le> seq_num (fst x) \<and> seq_num (fst x) < next_seq_num (obj s)"
    and "\<forall>x \<in> set (send_window (obj s)). \<forall>j. seq_num (fst x) \<le> j \<and> j < next_seq_num (obj s)
           \<longrightarrow> j \<in> seq_num ` fst ` set (send_window (obj s))"
  shows "next_seq_num (obj s) \<le> next_seq_num (obj s')
     \<and> (\<forall>x \<in> set (send_window (obj s')). 0 \<le> seq_num (fst x) \<and> seq_num (fst x) < next_seq_num (obj s'))
     \<and> (\<forall>x \<in> set (send_window (obj s')). \<forall>j. seq_num (fst x) \<le> j \<and> j < next_seq_num (obj s')
           \<longrightarrow> j \<in> seq_num ` fst ` set (send_window (obj s')))"
  using assms
proof (induction tr arbitrary: s)
  case Nil
  then show ?case by simp
next
  case (Cons e es)
  from Cons.prems(1) obtain s1 where f: "fire e s = Some s1" and r: "run es s1 = Some s'"
    by (auto split: option.splits)
  from fire_window_seqs [OF f Cons.prems(2,3,4)]
  have 1: "next_seq_num (obj s) \<le> next_seq_num (obj s1)"
    and 2: "\<forall>x \<in> set (send_window (obj s1)). 0 \<le> seq_num (fst x) \<and> seq_num (fst x) < next_seq_num (obj s1)"
    and 3: "\<forall>x \<in> set (send_window (obj s1)). \<forall>j. seq_num (fst x) \<le> j \<and> j < next_seq_num (obj s1)
           \<longrightarrow> j \<in> seq_num ` fst ` set (send_window (obj s1))"
    by blast+
  have 0: "0 \<le> next_seq_num (obj s1)" using 1 Cons.prems(2) by simp
  from Cons.IH [OF r 0 2 3] 1 show ?case by auto
qed

lemma reachable_window_seqs:
  assumes "run tr sender_init = Some s"
  shows "0 \<le> next_seq_num (obj s)
     \<and> (\<forall>x \<in> set (send_window (obj s)). 0 \<le> seq_num (fst x) \<and> seq_num (fst x) < next_seq_num (obj s))
     \<and> (\<forall>x \<in> set (send_window (obj s)). \<forall>j. seq_num (fst x) \<le> j \<and> j < next_seq_num (obj s)
           \<longrightarrow> j \<in> seq_num ` fst ` set (send_window (obj s)))"
  using run_window_seqs [OF assms] by (simp add: sender_init_def)

lemma already_removed_noop:
  assumes r1: "run tr1 sender_init = Some s1"
    and k1: "k \<in> seq_num ` fst ` set (send_window (obj s1))"
    and r2: "run tr2 s1 = Some s2"
    and k2: "k \<notin> seq_num ` fst ` set (send_window (obj s2))"
  shows "sender_recv_ack k (send_window (obj s2)) = send_window (obj s2)"
proof -
  note i1 = reachable_window_seqs [OF r1]
  from i1 k1 have kn1: "k < next_seq_num (obj s1)" by auto
  from i1 have "next_seq_num (obj s1) \<le> next_seq_num (obj s2)"
    and i2: "\<forall>x \<in> set (send_window (obj s2)). \<forall>j. seq_num (fst x) \<le> j \<and> j < next_seq_num (obj s2)
           \<longrightarrow> j \<in> seq_num ` fst ` set (send_window (obj s2))"
    using run_window_seqs [OF r2] by blast+
  then have kn2: "k < next_seq_num (obj s2)" using kn1 by simp
  have "\<forall>e \<in> set (send_window (obj s2)). k < seq_num (fst e)"
  proof
    fix e assume e: "e \<in> set (send_window (obj s2))"
    show "k < seq_num (fst e)"
    proof (rule ccontr)
      assume "\<not> k < seq_num (fst e)"
      then have "seq_num (fst e) \<le> k \<and> k < next_seq_num (obj s2)" using kn2 by simp
      with i2 e have "k \<in> seq_num ` fst ` set (send_window (obj s2))" by blast
      with k2 show False by simp
    qed
  qed
  then show ?thesis by (simp add: sender_recv_ack_id_iff)
qed

lemma run_three_sends: "run three_sends sender_init = Some three_sent"
  by (simp add: three_sends_def three_sent_def sender_init_def send_slices_def range_step_def
      MAX_DATA_SIZE_def SEND_WINDOW_SIZE_def sender_send_body_def to_bytes_def struct_pack_def
      Let_def)

lemma run_append:
  "run (xs @ ys) s = (case run xs s of None \<Rightarrow> None | Some s' \<Rightarrow> run ys s')"
  by (induction xs arbitrary: s) (auto split: option.splits)

lemma assigned_was_in_window:
  assumes "run tr sender_init = Some s" and "0 \<le> k" and "k < next_seq_num (obj s)"
  shows "\<exists>n s1. n \<le> length tr \<and> run (take n tr) sender_init = Some s1
           \<and> k \<in> seq_num ` fst ` set (send_window (obj s1))"
  using assms
proof (induction tr arbitrary: s rule: rev_induct)
  case Nil
  then show ?case by (auto simp: sender_init_def)
next
  case (snoc e es)
  from snoc.prems(1) obtain s0 where r: "run es sender_init = Some s0" and f: "fire e s0 = Some s"
    by (auto simp: run_append split: option.splits)
  show ?case
  proof (cases "k < next_seq_num (obj s0)")
    case True
    from snoc.IH [OF r snoc.prems(2) True] obtain n s1 where
      "n \<le> length es" "run (take n es) sender_init = Some s1"
      "k \<in> seq_num ` fst ` set (send_window (obj s1))" by blast
    then have "n \<le> length (es @ [e]) \<and> run (take n (es @ [e])) sender_init = Some s1
        \<and> k \<in> seq_num ` fst ` set (send_window (obj s1))" by simp
    then show ?thesis by blast
  next
    case False
    with fire_window_cases [OF f] snoc.prems(3) obtain c now where
      w: "send_window (obj s) =
            send_window (obj s0) @ [(\<lparr>ptype = DATA, seq_num = next_seq_num (obj s0), data = c\<rparr>, now)]"
      and n: "next_seq_num (obj s) = next_seq_num (obj s0) + 1"
      by auto
    from False snoc.prems(3) n have "k = next_seq_num (obj s0)" by simp
    then have "k \<in> seq_num ` fst ` set (send_window (obj s))" unfolding w by (simp add: image_iff)
    then have "length (es @ [e]) \<le> length (es @ [e])
        \<and> run (take (length (es @ [e])) (es @ [e])) sender_init = Some s
        \<and> k \<in> seq_num ` fst ` set (send_window (obj s))"
      using snoc.prems(1) by simp
    then show ?thesis by blast
  qed
qed

text \<open>
  C2, as the claim states its last part: an ACK for a sequence number that no window
  entry has (here 7, against a window holding only segment 0) is claimed to change
  nothing. The cumulative filter removes segment 0.
\<close>

theorem ack_never_existing_counterexample:
  "7 \<notin> seq_num ` fst ` set [(\<lparr>ptype = DATA, seq_num = 0, data = []\<rparr>, 0 :: timestamp)]
   \<and> sender_recv_ack 7 [(\<lparr>ptype = DATA, seq_num = 0, data = []\<rparr>, 0)]
       \<noteq> [(\<lparr>ptype = DATA, seq_num = 0, data = []\<rparr>, 0)]"
  by (simp add: sender_recv_ack_def)

text \<open>
  C2, amended. After ACK(k), in either source file, the window holds no entry with
  \<open>seq_num \<le> k\<close>; it is exactly the entries with \<open>seq_num > k\<close>, in their order and with
  their time stamps; processing ACK(k) again changes nothing; and ACK(k) leaves a window
  as it is exactly when every entry has \<open>seq_num > k\<close>. In every state the sender reaches
  from its initial state:
  \<^item> an ACK for an already-removed sequence number (one that was in the window in an
    earlier state and is not in it now) changes nothing: the window stays, and so does
    the whole sender state when the receive thread gets the lock;
  \<^item> an ACK for a sequence number that never existed changes nothing when its value is
    negative, and removes every entry when its value is at or above the sender's next
    sequence number;
  \<^item> these two are the only never-existing values: every \<open>k\<close> from 0 up to the next
    sequence number was in the window in some earlier state.
\<close>

theorem ack_cumulative:
  "(\<forall>e \<in> set (sender_recv_ack k w). k < seq_num (fst e))
   \<and> sender_recv_ack k w = filter (\<lambda>e. k < seq_num (fst e)) w
   \<and> sender_recv_ack k (sender_recv_ack k w) = sender_recv_ack k w
   \<and> sender_handle_ack k w = Inr (sender_recv_ack k w)
   \<and> (sender_recv_ack k w = w \<longleftrightarrow> (\<forall>e \<in> set w. k < seq_num (fst e)))
   \<and> (run tr1 sender_init = Some s1 \<and> k \<in> seq_num ` fst ` set (send_window (obj s1))
        \<and> run tr2 s1 = Some s2 \<and> k \<notin> seq_num ` fst ` set (send_window (obj s2))
      \<longrightarrow> sender_recv_ack k (send_window (obj s2)) = send_window (obj s2)
          \<and> (\<not> locked s2 \<longrightarrow> fire (AckArrive k) s2 = Some s2))
   \<and> (run tr sender_init = Some s \<longrightarrow>
        (k < 0 \<longrightarrow> sender_recv_ack k (send_window (obj s)) = send_window (obj s))
        \<and> (next_seq_num (obj s) \<le> k \<longrightarrow> sender_recv_ack k (send_window (obj s)) = [])
        \<and> (0 \<le> k \<and> k < next_seq_num (obj s) \<longrightarrow>
             (\<exists>n s0. n \<le> length tr \<and> run (take n tr) sender_init = Some s0
                \<and> k \<in> seq_num ` fst ` set (send_window (obj s0)))))"
proof -
  have eq: "sender_recv_ack k w = filter (\<lambda>e. k < seq_num (fst e)) w"
    by (simp add: sender_recv_ack_def case_prod_unfold)
  have none: "\<forall>e \<in> set (sender_recv_ack k w). k < seq_num (fst e)"
    by (simp add: eq)
  have idem: "sender_recv_ack k (sender_recv_ack k w) = sender_recv_ack k w"
    using none by (simp add: sender_recv_ack_id_iff)
  have removed: "sender_recv_ack k (send_window (obj s2)) = send_window (obj s2)
      \<and> (\<not> locked s2 \<longrightarrow> fire (AckArrive k) s2 = Some s2)"
    if "run tr1 sender_init = Some s1" "k \<in> seq_num ` fst ` set (send_window (obj s1))"
      "run tr2 s1 = Some s2" "k \<notin> seq_num ` fst ` set (send_window (obj s2))"
    using already_removed_noop [OF that] by simp
  have never: "(k < 0 \<longrightarrow> sender_recv_ack k (send_window (obj s)) = send_window (obj s))
        \<and> (next_seq_num (obj s) \<le> k \<longrightarrow> sender_recv_ack k (send_window (obj s)) = [])
        \<and> (0 \<le> k \<and> k < next_seq_num (obj s) \<longrightarrow>
             (\<exists>n s0. n \<le> length tr \<and> run (take n tr) sender_init = Some s0
                \<and> k \<in> seq_num ` fst ` set (send_window (obj s0))))"
    if r: "run tr sender_init = Some s"
  proof -
    note i = reachable_window_seqs [OF r]
    have a: "k < 0 \<longrightarrow> sender_recv_ack k (send_window (obj s)) = send_window (obj s)"
      using i by (auto simp: sender_recv_ack_id_iff)
    have b: "next_seq_num (obj s) \<le> k \<longrightarrow> sender_recv_ack k (send_window (obj s)) = []"
      using i by (auto simp: sender_recv_ack_Nil_iff)
    show ?thesis using a b assigned_was_in_window [OF r] by blast
  qed
  show ?thesis
    using eq none idem sender_handle_ack_eq [of k w] sender_recv_ack_id_iff [of k w] removed never
    by blast
qed

theorem ack_cumulative_witness:
  "run three_sends sender_init = Some three_sent
   \<and> 0 \<in> seq_num ` fst ` set (send_window (obj three_sent))
   \<and> run [AckArrive 0] three_sent = Some zero_acked
   \<and> 0 \<notin> seq_num ` fst ` set (send_window (obj zero_acked))
   \<and> length (send_window (obj zero_acked)) = 2
   \<and> sender_recv_ack 0 (send_window (obj zero_acked)) = send_window (obj zero_acked)
   \<and> \<not> locked zero_acked
   \<and> fire (AckArrive 0) zero_acked = Some zero_acked
   \<and> next_seq_num (obj three_sent) \<le> 7
   \<and> sender_recv_ack 7 (send_window (obj three_sent)) = []
   \<and> sender_recv_ack (- 1) (send_window (obj three_sent)) = send_window (obj three_sent)
   \<and> sender_recv_ack 1 (send_window (obj three_sent))
       = [(\<lparr>ptype = DATA, seq_num = 2, data = [2]\<rparr>, 0)]
   \<and> 1 < next_seq_num (obj three_sent)
   \<and> (\<exists>n s0. n \<le> length three_sends \<and> run (take n three_sends) sender_init = Some s0
         \<and> 1 \<in> seq_num ` fst ` set (send_window (obj s0)))"
  using ack_cumulative [where k = 0 and ?tr1.0 = three_sends and ?s1.0 = three_sent
      and ?tr2.0 = "[AckArrive 0]" and ?s2.0 = zero_acked]
    ack_cumulative [where k = 7 and tr = three_sends and s = three_sent]
    ack_cumulative [where k = "- 1" and tr = three_sends and s = three_sent]
    ack_cumulative [where k = 1 and w = "send_window (obj three_sent)" and tr = three_sends
      and s = three_sent]
    run_three_sends
  by (simp add: three_sent_def zero_acked_def sender_recv_ack_def)

text \<open>
  C10. For every window and every ACK value, \<^verbatim>\<open>_handle_ack\<close> of
  \<^verbatim>\<open>src/TestCode/swp.py\<close> returns normally with the window that the ACK branch of
  \<^verbatim>\<open>_recv\<close> of \<^verbatim>\<open>src/40269583/swp.py\<close> computes, and its cancellation loop finds no
  entry to act on: its body never runs.
\<close>

theorem handle_ack_variants_agree:
  "sender_handle_ack k w = Inr (sender_recv_ack k w)
   \<and> find (\<lambda>(packet, send_time). seq_num packet = k) (sender_recv_ack k w) = None"
  using sender_handle_ack_eq [of k w] find_filter_gt_None [of k w]
  by (simp add: sender_recv_ack_def)

section \<open>Receiver: handling DATA arrivals\<close>

lemmas receiver_eval =
  from_bytes_def HEADER_SIZE_def SWPType_of_def receiver_handle_data_def receiver_init_def
  receiver_send_ack_def to_bytes_def struct_pack_def drain.simps

text \<open>
  C6. The claim: the final ACK of the handler is always encodable, also in the state
  \<open>next_expected = 0\<close> reached when the first DATA packet to arrive has a sequence number
  above 0. The code, on a fresh receiver and a DATA packet with sequence number 1: the
  ACK value is \<open>-1\<close>, \<^verbatim>\<open>struct.pack\<close> raises, the handler ends with that exception and
  nothing is sent.
\<close>

theorem first_ack_not_encodable:
  "to_bytes \<lparr>ptype = ACK, seq_num = next_expected_seq_num receiver_init - 1, data = []\<rparr>
     = Inl StructError
   \<and> receiver_handle_data \<lparr>ptype = DATA, seq_num = 1, data = [7]\<rparr> receiver_init
     = (Inl StructError,
        \<lparr>ready_data = [], recv_buffer = [(1, [7])], next_expected_seq_num = 0,
         llp_sent = []\<rparr>)"
  by (simp add: receiver_eval)

text \<open>
  C1. The claim: whatever the order of arrival, the ready queue ends with the payloads
  of \<open>0..m-1\<close> in order. The code, on segment 1 (payload 7) arriving before segment 0
  (payload 9): the receive thread dies of the exception of C6 while handling the first
  arrival, the second is never handled, and the ready queue stays empty.
\<close>

theorem reordered_arrivals_release_nothing:
  "receiver_recv_loop [[0x44, 0, 0, 0, 1, 7], [0x44, 0, 0, 0, 0, 9]] receiver_init
     = (Inl StructError,
        \<lparr>ready_data = [], recv_buffer = [(1, [7])], next_expected_seq_num = 0,
         llp_sent = []\<rparr>)"
  by (simp add: receiver_eval)

text \<open>
  C7. The claim: one arrival, one ACK. The code, on segment 0 arriving a second time
  after it was released (the state the first arrival leaves, given by the second
  equation): two ACK packets with value 0 are sent, one by the test for an old segment
  and, since the handler goes on, one at its end.
\<close>

theorem duplicate_arrival_sends_two_acks:
  "receiver_handle_data \<lparr>ptype = DATA, seq_num = 0, data = [7]\<rparr>
     \<lparr>ready_data = [[7]], recv_buffer = [], next_expected_seq_num = 1,
      llp_sent = [[0x41, 0, 0, 0, 0]]\<rparr>
   = (Inr (),
      \<lparr>ready_data = [[7]], recv_buffer = [(0, [7])], next_expected_seq_num = 1,
       llp_sent = [[0x41, 0, 0, 0, 0], [0x41, 0, 0, 0, 0], [0x41, 0, 0, 0, 0]]\<rparr>)
   \<and> receiver_handle_data \<lparr>ptype = DATA, seq_num = 0, data = [7]\<rparr> receiver_init
   = (Inr (),
      \<lparr>ready_data = [[7]], recv_buffer = [], next_expected_seq_num = 1,
       llp_sent = [[0x41, 0, 0, 0, 0]]\<rparr>)"
  by (simp add: receiver_eval)

text \<open>
  C8. The claim: the buffer never keeps a segment that was already delivered. The
  code, on segment 0 arriving twice: after both arrivals are handled the buffer holds
  key 0 while \<open>next_expected\<close> is 1, and nothing will ever remove it.
\<close>

theorem duplicate_arrival_stays_in_buffer:
  "receiver_recv_loop [[0x44, 0, 0, 0, 0, 7], [0x44, 0, 0, 0, 0, 7]] receiver_init
     = (Inr (),
        \<lparr>ready_data = [[7]], recv_buffer = [(0, [7])], next_expected_seq_num = 1,
         llp_sent = [[0x41, 0, 0, 0, 0], [0x41, 0, 0, 0, 0], [0x41, 0, 0, 0, 0]]\<rparr>)"
  by (simp add: receiver_eval)

section \<open>Sender: the window under any interleaving\<close>








section \<open>Sender: a full window\<close>

lemma blocked_fire:
  assumes "locked s" and "app s = InWait c cs"
    and "SEND_WINDOW_SIZE \<le> length (send_window (obj s))" and "fire e s = Some s'"
  shows "s' = s \<and> e = Sleep"
proof (cases e)
  case (CallSend d)
  with assms show ?thesis by auto
next
  case Acquire
  with assms show ?thesis by auto
next
  case Sleep
  with assms show ?thesis by (auto split: if_splits)
next
  case (Transmit now)
  with assms show ?thesis by auto
next
  case Return
  with assms show ?thesis by auto
next
  case (TimerFire n)
  with assms show ?thesis by auto
next
  case (AckArrive k)
  with assms show ?thesis by auto
qed

lemma blocked_run:
  assumes "locked s" and "app s = InWait c cs"
    and "SEND_WINDOW_SIZE \<le> length (send_window (obj s))"
  shows "run tr s = Some s' \<Longrightarrow> s' = s \<and> set tr \<subseteq> {Sleep}"
proof (induction tr)
  case Nil
  then show ?case by simp
next
  case (Cons e es)
  from Cons.prems obtain s1 where f: "fire e s = Some s1" and r: "run es s1 = Some s'"
    by (auto split: option.splits)
  from assms f have "s1 = s \<and> e = Sleep" by (rule blocked_fire)
  with r Cons.IH show ?case by simp
qed

lemma send_slices_big_data:
  "send_slices big_data =
     [replicate 1400 0, replicate 1400 0, replicate 1400 0, replicate 1400 0,
      replicate 1400 0, [0]]"
proof -
  have six: "[0..<6] = [0, 1, 2, 3, 4, 5::nat]"
    by (simp add: upt_rec)
  show ?thesis
    by (simp add: send_slices_def range_step_def big_data_def MAX_DATA_SIZE_def six)
qed

lemma run_six_sends: "run six_sends sender_init = Some stuck"
  by (simp add: six_sends_def sender_init_def stuck_def segment_def send_slices_big_data
      SEND_WINDOW_SIZE_def sender_send_body_def to_bytes_def struct_pack_def Let_def)

lemma stuck_blocked:
  "locked stuck \<and> app stuck = InWait [0] []
   \<and> SEND_WINDOW_SIZE \<le> length (send_window (obj stuck))"
  by (simp add: stuck_def SEND_WINDOW_SIZE_def)

text \<open>
  C5. The claim: an ACK that arrives while \<^verbatim>\<open>send\<close> waits on a full window is processed
  and lets the waiting \<^verbatim>\<open>send\<close> go on. The code: a \<^verbatim>\<open>_send\<close> that waits holds the lock
  through every \<^verbatim>\<open>time.sleep\<close>, while ACK processing and \<^verbatim>\<open>_retransmit\<close> need the lock.
  From such a state no ACK step can be taken, every step that can is a \<open>Sleep\<close>, and the
  state never changes.
\<close>

theorem waiting_send_blocks_ack:
  assumes "locked s" and "app s = InWait c cs"
    and "5 \<le> length (send_window (obj s))"
  shows "fire (AckArrive k) s = None
         \<and> (run tr s = Some s' \<longrightarrow> s' = s \<and> set tr \<subseteq> {Sleep})"
proof -
  from assms(3) have full: "SEND_WINDOW_SIZE \<le> length (send_window (obj s))"
    by (simp add: SEND_WINDOW_SIZE_def)
  from assms(1) have "fire (AckArrive k) s = None" by simp
  moreover have "run tr s = Some s' \<longrightarrow> s' = s \<and> set tr \<subseteq> {Sleep}"
    using blocked_run [OF assms(1) assms(2) full] by blast
  ultimately show ?thesis by blast
qed

text \<open>
  C3. The claim: \<^verbatim>\<open>send\<close> of more than 1400 bytes transmits \<open>ceil(L / 1400)\<close> segments and
  the receiver gets all the bytes. The code, on 7001 bytes (six slices), when the
  application thread makes its sixth call of \<^verbatim>\<open>_send\<close> before an ACK is handled: the
  steps \<open>six_sends\<close> lead to \<open>stuck\<close>, where five segments have been transmitted and the
  application thread waits with the lock; by the defect of C5 whatever follows leaves
  that state unchanged, so the sixth segment is never transmitted.
\<close>

theorem six_segment_send_stalls:
  "length big_data = 7001
   \<and> length (send_slices big_data) = 6
   \<and> run six_sends sender_init = Some stuck
   \<and> length (llp_out (obj stuck)) = 5
   \<and> (run tr stuck = Some s' \<longrightarrow> llp_out (obj s') = llp_out (obj stuck))"
proof -
  have "run tr stuck = Some s' \<longrightarrow> s' = stuck"
    using stuck_blocked blocked_run [of stuck "[0]" "[]" tr s'] by blast
  moreover have "length (llp_out (obj stuck)) = 5"
    by (simp add: stuck_def)
  moreover have "length big_data = 7001"
    by (simp add: big_data_def)
  moreover have "length (send_slices big_data) = 6"
    by (simp add: send_slices_big_data)
  ultimately show ?thesis
    using run_six_sends by blast
qed


theorem waiting_send_blocks_ack_witness:
  "locked stuck \<and> app stuck = InWait [0] [] \<and> 5 \<le> length (send_window (obj stuck))
   \<and> run [Sleep, Sleep] stuck = Some stuck
   \<and> fire (AckArrive 4) stuck = None"
proof -
  have w: "locked stuck" "app stuck = InWait [0] []" "5 \<le> length (send_window (obj stuck))"
    by (simp_all add: stuck_def)
  have r: "run [Sleep, Sleep] stuck = Some stuck"
    by (simp add: stuck_def SEND_WINDOW_SIZE_def)
  show ?thesis
    using w r waiting_send_blocks_ack [OF w, of 4 "[Sleep, Sleep]" stuck] by simp
qed

theorem six_segment_send_stalls_witness:
  "run [Sleep] stuck = Some stuck \<and> length (llp_out (obj stuck)) = 5
   \<and> length (send_slices big_data) = 6"
proof -
  have r: "run [Sleep] stuck = Some stuck"
    by (simp add: stuck_def SEND_WINDOW_SIZE_def)
  show ?thesis
    using r six_segment_send_stalls [of "[Sleep]" stuck] by simp
qed

end
